theory Spec2Isabelle
  imports Complex_Main "HOL-Library.Multiset"
begin

section \<open>Instance accounting: the data model of \<^verbatim>\<open>accounting.py\<close>\<close>

text \<open>
  A timestamp is a Python \<^verbatim>\<open>datetime\<close>: a point on a discrete, totally ordered time line
  with microsecond resolution. It is modelled as the integer number of microseconds since
  an arbitrary epoch. Parsing the provider's timestamp strings (\<^verbatim>\<open>dateutil\<close>) is outside
  the program; the provider's answers carry instants that are already parsed, and every
  instant can be compared with every other (all of them are in UTC).
\<close>

type_synonym instant = int

text \<open>The exceptions the module can raise, as values.\<close>

datatype error =
    ValueError string
  | Exception string
  | IndexError
  | KeyError string

text \<open>What \<^verbatim>\<open>conn.compute.server_actions\<close> yields: objects with \<^verbatim>\<open>.action\<close> and \<^verbatim>\<open>.start_time\<close>.\<close>

record server_action =
  sa_action :: string
  sa_start_time :: instant

text \<open>The dictionaries \<^verbatim>\<open>{"action": ..., "time": ...}\<close> built on line 58.\<close>

record action =
  action :: string
  time :: instant

text \<open>The dictionaries \<^verbatim>\<open>{"start": ..., "end": ..., "state": ...}\<close> of the result.\<close>

record interval =
  iv_start :: instant
  iv_end :: instant
  iv_state :: string

record flavor =
  original_name :: string
  vcpus :: int

record server =
  created_at :: instant
  flavor :: flavor

text \<open>The connection: the two provider calls the module makes, by instance id.\<close>

record conn =
  server_actions :: "string \<Rightarrow> server_action list"
  get_server :: "string \<Rightarrow> server"

subsection \<open>The static tables\<close>

definition RELEVANT_EVENTS :: "string list" where
  "RELEVANT_EVENTS =
     [''create'', ''delete'', ''pause'', ''resume'', ''shelve'',
      ''start'', ''stop'', ''suspend'', ''unpause'', ''unshelve'']"

definition ACTION_TO_STATE_LOOKUP :: "string \<rightharpoonup> string" where
  "ACTION_TO_STATE_LOOKUP = map_of
     [(''create'', ''active''),
      (''delete'', ''deleted''),
      (''pause'', ''suspended''),
      (''resume'', ''active''),
      (''shelve'', ''shelved_offloaded''),
      (''start'', ''active''),
      (''stop'', ''stopped''),
      (''suspend'', ''suspended''),
      (''unpause'', ''active''),
      (''unshelve'', ''active'')]"

text \<open>
  The keys of the state table are what the reconstructor's results are checked against.
  Its values mix Python integers and the floats 0.75 and 0.5, both of which a double holds
  exactly; they are written as the rationals they denote.
\<close>

definition STATE_CHARGE_MULTIPLIERS :: "string \<rightharpoonup> rat" where
  "STATE_CHARGE_MULTIPLIERS = map_of
     [(''active'', 1),
      (''deleted'', 0),
      (''error'', 0),
      (''not_yet_created'', 0),
      (''paused'', 3 / 4),
      (''resized'', 1),
      (''shelved_offloaded'', 0),
      (''stopped'', 1 / 2),
      (''suspended'', 3 / 4)]"

section \<open>The event filter and normalizer\<close>

text \<open>
  \<^verbatim>\<open>get_actions_for_instance\<close> (lines 54 to 67): collect, filter on the relevant kinds,
  sort by time (Python's \<^verbatim>\<open>list.sort\<close> is stable, as \<open>sort_key\<close> is), and put a create event
  in front when the first action is not one. \<^verbatim>\<open>actions[0]\<close> on an empty list raises
  \<^verbatim>\<open>IndexError\<close>.
\<close>

definition get_actions_for_instance :: "conn \<Rightarrow> string \<Rightarrow> error + action list" where
  "get_actions_for_instance conn instance_id =
     (let actions = map (\<lambda>a. \<lparr>action = sa_action a, time = sa_start_time a\<rparr>)
                        (server_actions conn instance_id);
          actions = filter (\<lambda>a. action a \<in> set RELEVANT_EVENTS) actions;
          actions = sort_key time actions
      in case actions of
           [] \<Rightarrow> Inl IndexError
         | a0 # _ \<Rightarrow>
             if action a0 \<noteq> ''create''
             then Inr (\<lparr>action = ''create'',
                        time = created_at (get_server conn instance_id)\<rparr> # actions)
             else Inr actions)"

section \<open>The interval reconstructor\<close>

text \<open>
  Lines 90 to 94: the scan for the last action at or before \<open>start\<close>. Every action the
  loop visits before it breaks is looked up in \<open>ACTION_TO_STATE_LOOKUP\<close>.
\<close>

fun starting_state_scan :: "action list \<Rightarrow> instant \<Rightarrow> string \<Rightarrow> error + string" where
  "starting_state_scan [] start starting_state = Inr starting_state"
| "starting_state_scan (a # actions) start starting_state =
     (if time a \<le> start
      then (case ACTION_TO_STATE_LOOKUP (action a) of
              None \<Rightarrow> Inl (KeyError (action a))
            | Some s \<Rightarrow> starting_state_scan actions start s)
      else Inr starting_state)"

text \<open>Lines 83 to 94: the state of the instance at \<open>start\<close>.\<close>

definition starting_state_of :: "action list \<Rightarrow> instant \<Rightarrow> error + string" where
  "starting_state_of actions start =
     (case actions of
        [] \<Rightarrow> Inl IndexError
      | a0 # _ \<Rightarrow>
          if start \<le> time a0 then Inr ''deleted''
          else starting_state_scan actions start '''')"

text \<open>Lines 109 to 121: the interval appended for index \<open>i\<close> of the loop.\<close>

definition interval_at :: "action list \<Rightarrow> instant \<Rightarrow> nat \<Rightarrow> error + interval" where
  "interval_at actions end' i =
     (case ACTION_TO_STATE_LOOKUP (action (actions ! i)) of
        None \<Rightarrow> Inl (KeyError (action (actions ! i)))
      | Some s \<Rightarrow>
          if i = length actions - 1
          then Inr \<lparr>iv_start = time (actions ! i), iv_end = end', iv_state = s\<rparr>
          else Inr \<lparr>iv_start = time (actions ! i), iv_end = time (actions ! (i + 1)),
                    iv_state = s\<rparr>)"

text \<open>Lines 107 to 121: the loop over \<^verbatim>\<open>range(len(actions))\<close>, appending to \<open>intervals\<close>.\<close>

fun append_intervals ::
  "action list \<Rightarrow> instant \<Rightarrow> nat list \<Rightarrow> interval list \<Rightarrow> error + interval list" where
  "append_intervals actions end' [] intervals = Inr intervals"
| "append_intervals actions end' (i # idxs) intervals =
     (case interval_at actions end' i of
        Inl e \<Rightarrow> Inl e
      | Inr iv \<Rightarrow> append_intervals actions end' idxs (intervals @ [iv]))"

text \<open>
  Lines 77 to 122 of \<^verbatim>\<open>get_charge_intervals_for_instance\<close>: everything after the action
  history has been fetched.
\<close>

definition charge_intervals_of_actions ::
  "action list \<Rightarrow> instant \<Rightarrow> instant \<Rightarrow> error + interval list" where
  "charge_intervals_of_actions all_actions start end' =
     (let actions = filter (\<lambda>a. time a < end') all_actions in
      if length actions = 0 then Inl (Exception ''Action history is empty!'')
      else
        case starting_state_of actions start of
          Inl e \<Rightarrow> Inl e
        | Inr starting_state \<Rightarrow>
            let actions = filter (\<lambda>a. time a \<ge> start) actions in
            if length actions = 0
            then Inr [\<lparr>iv_start = start, iv_end = end', iv_state = starting_state\<rparr>]
            else append_intervals actions end' [0..<length actions]
                   [\<lparr>iv_start = start, iv_end = time (actions ! 0),
                     iv_state = starting_state\<rparr>])"

text \<open>Lines 71 to 122: the range check comes before the action history is fetched.\<close>

definition get_charge_intervals_for_instance ::
  "conn \<Rightarrow> string \<Rightarrow> instant \<Rightarrow> instant \<Rightarrow> error + interval list" where
  "get_charge_intervals_for_instance conn instance_id start end' =
     (if end' < start
      then Inl (ValueError ''End datetime cannot be before start datetime!'')
      else
        case get_actions_for_instance conn instance_id of
          Inl e \<Rightarrow> Inl e
        | Inr actions \<Rightarrow> charge_intervals_of_actions actions start end')"

section \<open>The charge calculator\<close>

text \<open>
  \<^verbatim>\<open>get_total_charge_for_instance\<close> (lines 126 to 140) computes in floating point:
  \<^verbatim>\<open>timedelta.total_seconds()\<close>, the division by 3600, the product with the total
  multiplier and the running sum are operations on IEEE doubles, each of them rounded.
  Exact arithmetic does not describe it (twenty minutes in state active on one vCPU are
  charged the double nearest to one third, not one third), so the calculator is left out
  of this development. Only the keys of \<open>STATE_CHARGE_MULTIPLIERS\<close> are used below.
\<close>

section \<open>The specification's description of the result\<close>

text \<open>
  The following definitions are not taken from the code. They write down what the
  specification says the reconstructor returns, to be compared with the code above.
\<close>

text \<open>\<open>ACTION_TO_STATE\<close> of an action, where the table has its kind.\<close>

definition mapped_state :: "action \<Rightarrow> string" where
  "mapped_state a = the (ACTION_TO_STATE_LOOKUP (action a))"

text \<open>
  ``For each action in order emit \<open>[action.timestamp, next_action.timestamp)\<close> with the
  action's mapped state, and for the final action emit \<open>[action.timestamp, end)\<close>.''
\<close>

fun spec_action_intervals :: "action list \<Rightarrow> instant \<Rightarrow> interval list" where
  "spec_action_intervals [] end' = []"
| "spec_action_intervals [a] end' =
     [\<lparr>iv_start = time a, iv_end = end', iv_state = mapped_state a\<rparr>]"
| "spec_action_intervals (a # b # rest) end' =
     \<lparr>iv_start = time a, iv_end = time b, iv_state = mapped_state a\<rparr>
       # spec_action_intervals (b # rest) end'"

text \<open>
  ``If no actions remain at or after \<open>start\<close>: a single interval \<open>[start, end)\<close> with the
  starting state. Otherwise \<open>[start, first_action.timestamp)\<close> with the starting state,
  then the intervals of the actions.''
\<close>

definition spec_intervals ::
  "string \<Rightarrow> action list \<Rightarrow> instant \<Rightarrow> instant \<Rightarrow> interval list" where
  "spec_intervals starting_state remaining start end' =
     (if remaining = []
      then [\<lparr>iv_start = start, iv_end = end', iv_state = starting_state\<rparr>]
      else \<lparr>iv_start = start, iv_end = time (hd remaining), iv_state = starting_state\<rparr>
             # spec_action_intervals remaining end')"

text \<open>The states an interval can carry: the values of \<open>ACTION_TO_STATE_LOOKUP\<close>.\<close>

definition PRODUCED_STATES :: "string set" where
  "PRODUCED_STATES =
     {''active'', ''deleted'', ''suspended'', ''shelved_offloaded'', ''stopped''}"

text \<open>
  Lines 56 to 60 of \<^verbatim>\<open>get_actions_for_instance\<close> on their own: the provider's actions of
  a relevant kind, in the provider's order, before they are sorted.
\<close>

definition relevant_actions :: "conn \<Rightarrow> string \<Rightarrow> action list" where
  "relevant_actions conn instance_id =
     filter (\<lambda>a. action a \<in> set RELEVANT_EVENTS)
       (map (\<lambda>a. \<lparr>action = sa_action a, time = sa_start_time a\<rparr>)
            (server_actions conn instance_id))"

text \<open>
  A connection for examples: it answers every instance id with the same action history,
  creation time, flavor name and vCPU count.
\<close>

definition conn_of :: "server_action list \<Rightarrow> instant \<Rightarrow> string \<Rightarrow> int \<Rightarrow> conn" where
  "conn_of raw created name n =
     \<lparr>server_actions = (\<lambda>_. raw),
      get_server = (\<lambda>_. \<lparr>created_at = created,
                             flavor = \<lparr>original_name = name, vcpus = n\<rparr>\<rparr>)\<rparr>"

section \<open>Auxiliary facts\<close>

lemma successively_nth:
  "successively P xs \<longleftrightarrow> (\<forall>i. Suc i < length xs \<longrightarrow> P (xs ! i) (xs ! Suc i))"
proof (induction P xs rule: successively.induct)
  case (3 P x y xs)
  show ?case
  proof
    assume a: "successively P (x # y # xs)"
    show "\<forall>i. Suc i < length (x # y # xs) \<longrightarrow> P ((x # y # xs) ! i) ((x # y # xs) ! Suc i)"
    proof (intro allI impI)
      fix i assume i: "Suc i < length (x # y # xs)"
      show "P ((x # y # xs) ! i) ((x # y # xs) ! Suc i)"
      proof (cases i)
        case 0 with a show ?thesis by simp
      next
        case (Suc j)
        with a i 3 show ?thesis by simp
      qed
    qed
  next
    assume a: "\<forall>i. Suc i < length (x # y # xs) \<longrightarrow> P ((x # y # xs) ! i) ((x # y # xs) ! Suc i)"
    have "P x y" using a[rule_format, of 0] by simp
    moreover have "\<forall>i. Suc i < length (y # xs) \<longrightarrow> P ((y # xs) ! i) ((y # xs) ! Suc i)"
    proof (intro allI impI)
      fix i assume "Suc i < length (y # xs)"
      then show "P ((y # xs) ! i) ((y # xs) ! Suc i)" using a[rule_format, of "Suc i"] by simp
    qed
    ultimately show "successively P (x # y # xs)" using 3 by simp
  qed
qed simp_all

lemma spec_action_intervals_Cons:
  "spec_action_intervals (a # rest) end' =
     \<lparr>iv_start = time a, iv_end = (if rest = [] then end' else time (hd rest)),
       iv_state = mapped_state a\<rparr> # spec_action_intervals rest end'"
  by (cases rest) simp_all

lemma length_spec_action_intervals [simp]:
  "length (spec_action_intervals actions end') = length actions"
  by (induction actions) (simp_all add: spec_action_intervals_Cons)

lemma interval_at_drop:
  assumes "k < length actions" "ACTION_TO_STATE_LOOKUP (action (actions ! k)) = Some s"
  shows "interval_at actions end' k =
     Inr \<lparr>iv_start = time (actions ! k),
          iv_end = (if drop (Suc k) actions = [] then end' else time (hd (drop (Suc k) actions))),
          iv_state = s\<rparr>"
proof (cases "Suc k = length actions")
  case True
  then have "k = length actions - 1" by simp
  with True assms show ?thesis by (simp add: interval_at_def)
next
  case False
  with assms have "Suc k < length actions" by simp
  then show ?thesis using assms by (auto simp: interval_at_def hd_drop_conv_nth)
qed

lemma append_intervals_suffix:
  assumes "\<forall>a \<in> set actions. ACTION_TO_STATE_LOOKUP (action a) \<noteq> None" "k \<le> length actions"
  shows "append_intervals actions end' [k..<length actions] acc =
         Inr (acc @ spec_action_intervals (drop k actions) end')"
  using assms(2)
proof (induction "length actions - k" arbitrary: k acc)
  case 0
  then show ?case by simp
next
  case (Suc n)
  then have k: "k < length actions" by simp
  from assms(1) k obtain s where s: "ACTION_TO_STATE_LOOKUP (action (actions ! k)) = Some s"
    by (metis not_None_eq nth_mem)
  have d: "drop k actions = actions ! k # drop (Suc k) actions"
    using k by (simp add: Cons_nth_drop_Suc)
  have ih: "append_intervals actions end' [Suc k..<length actions] acc' =
         Inr (acc' @ spec_action_intervals (drop (Suc k) actions) end')" for acc'
    using Suc(1)[of "Suc k" acc'] Suc(2) k by simp
  show ?case
    using k s by (simp add: upt_conv_Cons interval_at_drop ih d spec_action_intervals_Cons mapped_state_def)
qed

lemma append_intervals_all:
  assumes "\<forall>a \<in> set actions. ACTION_TO_STATE_LOOKUP (action a) \<noteq> None"
  shows "append_intervals actions end' [0..<length actions] acc =
         Inr (acc @ spec_action_intervals actions end')"
  using append_intervals_suffix[OF assms, of 0] by simp

lemma interval_at_Inr_lookup:
  "interval_at actions end' i = Inr iv \<Longrightarrow> ACTION_TO_STATE_LOOKUP (action (actions ! i)) \<noteq> None"
  by (auto simp: interval_at_def split: option.splits)

lemma append_intervals_Inr_lookup:
  "append_intervals actions end' idxs acc = Inr r \<Longrightarrow>
     \<forall>i \<in> set idxs. ACTION_TO_STATE_LOOKUP (action (actions ! i)) \<noteq> None"
  by (induction idxs arbitrary: acc) (auto split: sum.splits dest: interval_at_Inr_lookup)

lemma append_intervals_Inr:
  assumes "append_intervals actions end' [0..<length actions] acc = Inr r"
  shows "r = acc @ spec_action_intervals actions end'"
proof -
  have "\<forall>a \<in> set actions. ACTION_TO_STATE_LOOKUP (action a) \<noteq> None"
  proof
    fix a assume "a \<in> set actions"
    then obtain i where "i < length actions" "actions ! i = a" by (auto simp: in_set_conv_nth)
    with append_intervals_Inr_lookup[OF assms] show "ACTION_TO_STATE_LOOKUP (action a) \<noteq> None"
      by auto
  qed
  from append_intervals_all[OF this] assms show ?thesis by simp
qed

lemma relevant_lookup:
  "k \<in> set RELEVANT_EVENTS \<Longrightarrow> ACTION_TO_STATE_LOOKUP k \<noteq> None"
  by (auto simp: RELEVANT_EVENTS_def ACTION_TO_STATE_LOOKUP_def)

lemma lookup_range:
  "ACTION_TO_STATE_LOOKUP k = Some s \<Longrightarrow> s \<in> PRODUCED_STATES"
  by (auto simp: ACTION_TO_STATE_LOOKUP_def PRODUCED_STATES_def split: if_splits)

lemma mapped_state_range:
  "ACTION_TO_STATE_LOOKUP (action a) \<noteq> None \<Longrightarrow> mapped_state a \<in> PRODUCED_STATES"
  by (auto simp: mapped_state_def dest: lookup_range)

lemma starting_state_scan_sorted:
  assumes "sorted (map time actions)"
    and "\<forall>a \<in> set actions. ACTION_TO_STATE_LOOKUP (action a) \<noteq> None"
  shows "starting_state_scan actions start st =
         Inr (if filter (\<lambda>a. time a \<le> start) actions = [] then st
              else mapped_state (last (filter (\<lambda>a. time a \<le> start) actions)))"
  using assms
proof (induction actions arbitrary: st)
  case Nil
  then show ?case by simp
next
  case (Cons a actions)
  show ?case
  proof (cases "time a \<le> start")
    case True
    from Cons.prems obtain s where s: "ACTION_TO_STATE_LOOKUP (action a) = Some s" by auto
    have "starting_state_scan actions start s =
         Inr (if filter (\<lambda>a. time a \<le> start) actions = [] then s
              else mapped_state (last (filter (\<lambda>a. time a \<le> start) actions)))"
      using Cons.IH[of s] Cons.prems by simp
    with True s show ?thesis by (simp add: mapped_state_def)
  next
    case False
    with Cons.prems(1) have "\<forall>b \<in> set actions. \<not> time b \<le> start" by auto
    then have "filter (\<lambda>a. time a \<le> start) actions = []" by (simp add: filter_empty_conv)
    with False show ?thesis by simp
  qed
qed

lemma starting_state_scan_range:
  "starting_state_scan actions start st = Inr s \<Longrightarrow> s = st \<or> s \<in> PRODUCED_STATES"
proof (induction actions arbitrary: st)
  case Nil
  then show ?case by simp
next
  case (Cons a actions)
  show ?case
  proof (cases "time a \<le> start")
    case True
    with Cons.prems obtain s' where s': "ACTION_TO_STATE_LOOKUP (action a) = Some s'"
      and r: "starting_state_scan actions start s' = Inr s"
      by (auto split: option.splits)
    from Cons.IH[OF r] lookup_range[OF s'] show ?thesis by auto
  next
    case False
    with Cons.prems show ?thesis by simp
  qed
qed

lemma starting_state_of_range:
  assumes "starting_state_of actions start = Inr s"
  shows "s \<in> PRODUCED_STATES"
proof (cases actions)
  case Nil
  with assms show ?thesis by (simp add: starting_state_of_def)
next
  case (Cons a rest)
  show ?thesis
  proof (cases "start \<le> time a")
    case True
    with assms Cons show ?thesis by (simp add: starting_state_of_def PRODUCED_STATES_def)
  next
    case False
    with assms Cons obtain s' where s': "ACTION_TO_STATE_LOOKUP (action a) = Some s'"
      and r: "starting_state_scan rest start s' = Inr s"
      by (auto simp: starting_state_of_def split: option.splits)
    from starting_state_scan_range[OF r] lookup_range[OF s'] show ?thesis by auto
  qed
qed

lemma starting_state_of_sorted:
  assumes "actions \<noteq> []" "sorted (map time actions)"
    and "\<forall>a \<in> set actions. ACTION_TO_STATE_LOOKUP (action a) \<noteq> None"
  shows "starting_state_of actions start =
         Inr (if start \<le> time (hd actions) then ''deleted''
              else mapped_state (last (filter (\<lambda>a. time a \<le> start) actions)))"
proof (cases actions)
  case Nil
  with assms show ?thesis by simp
next
  case (Cons a rest)
  show ?thesis
  proof (cases "start \<le> time a")
    case True
    with Cons show ?thesis by (simp add: starting_state_of_def)
  next
    case False
    then have "filter (\<lambda>a. time a \<le> start) actions \<noteq> []" using Cons by simp
    with False Cons starting_state_scan_sorted[OF assms(2,3), of start "[]"]
    show ?thesis by (simp add: starting_state_of_def)
  qed
qed

lemma starting_state_of_ok:
  assumes "actions \<noteq> []"
    and "\<forall>a \<in> set actions. ACTION_TO_STATE_LOOKUP (action a) \<noteq> None"
  shows "\<exists>s. starting_state_of actions start = Inr s"
proof -
  have scan: "\<exists>s. starting_state_scan xs start st = Inr s"
    if "\<forall>a \<in> set xs. ACTION_TO_STATE_LOOKUP (action a) \<noteq> None" for xs st
    using that by (induction xs arbitrary: st) auto
  from scan[OF assms(2), of "[]"] obtain s where "starting_state_scan actions start [] = Inr s"
    by blast
  with assms(1) show ?thesis
    by (cases actions) (simp_all add: starting_state_of_def del: starting_state_scan.simps)
qed

lemma charge_intervals_of_actions_Inr:
  assumes "charge_intervals_of_actions all_actions start end' = Inr ivs"
  shows "\<exists>st. starting_state_of (filter (\<lambda>a. time a < end') all_actions) start = Inr st \<and>
           ivs = spec_intervals st
                   (filter (\<lambda>a. time a \<ge> start) (filter (\<lambda>a. time a < end') all_actions))
                   start end'"
proof -
  let ?kept = "filter (\<lambda>a. time a < end') all_actions"
  let ?win = "filter (\<lambda>a. time a \<ge> start) ?kept"
  from assms have ne: "?kept \<noteq> []"
    by (auto simp: charge_intervals_of_actions_def Let_def split: if_splits)
  from assms ne obtain st where st: "starting_state_of ?kept start = Inr st"
    by (cases "starting_state_of ?kept start") (auto simp: charge_intervals_of_actions_def Let_def)
  show ?thesis
  proof (cases "?win = []")
    case True
    with assms ne st show ?thesis
      by (simp add: charge_intervals_of_actions_def Let_def spec_intervals_def)
  next
    case False
    with assms ne st have
      "append_intervals ?win end' [0..<length ?win]
         [\<lparr>iv_start = start, iv_end = time (?win ! 0), iv_state = st\<rparr>] = Inr ivs"
      by (simp add: charge_intervals_of_actions_def Let_def)
    from append_intervals_Inr[OF this] False st show ?thesis
      by (simp add: spec_intervals_def hd_conv_nth)
  qed
qed

lemma charge_intervals_of_actions_ok:
  assumes "filter (\<lambda>a. time a < end') all_actions \<noteq> []"
    and "\<forall>a \<in> set all_actions. ACTION_TO_STATE_LOOKUP (action a) \<noteq> None"
  shows "\<exists>ivs. charge_intervals_of_actions all_actions start end' = Inr ivs"
proof -
  let ?kept = "filter (\<lambda>a. time a < end') all_actions"
  let ?win = "filter (\<lambda>a. time a \<ge> start) ?kept"
  from assms(2) have k: "\<forall>a \<in> set ?kept. ACTION_TO_STATE_LOOKUP (action a) \<noteq> None" by simp
  then have w: "\<forall>a \<in> set ?win. ACTION_TO_STATE_LOOKUP (action a) \<noteq> None" by simp
  from starting_state_of_ok[OF assms(1) k] obtain st
    where st: "starting_state_of ?kept start = Inr st" by blast
  show ?thesis
    using assms(1) st append_intervals_all[OF w]
    by (simp add: charge_intervals_of_actions_def Let_def)
qed

lemma spec_action_intervals_last:
  "actions \<noteq> [] \<Longrightarrow> iv_end (last (spec_action_intervals actions end')) = end'"
  by (induction actions end' rule: spec_action_intervals.induct)
     (simp_all add: spec_action_intervals_Cons)

lemma spec_action_intervals_chain:
  "successively (\<lambda>x y. iv_end x = iv_start y) (spec_action_intervals actions end')"
  by (induction actions end' rule: spec_action_intervals.induct)
     (simp_all add: spec_action_intervals_Cons successively_Cons)

lemma spec_action_intervals_ordered:
  assumes "sorted (map time actions)" "\<forall>a \<in> set actions. time a \<le> end'"
  shows "\<forall>iv \<in> set (spec_action_intervals actions end'). iv_start iv \<le> iv_end iv"
  using assms by (induction actions end' rule: spec_action_intervals.induct) simp_all

lemma spec_action_intervals_states:
  assumes "\<forall>a \<in> set actions. ACTION_TO_STATE_LOOKUP (action a) \<noteq> None"
  shows "\<forall>iv \<in> set (spec_action_intervals actions end'). iv_state iv \<in> PRODUCED_STATES"
  using assms
  by (induction actions end' rule: spec_action_intervals.induct) (simp_all add: mapped_state_range)

lemma spec_intervals_nonempty: "spec_intervals st remaining start end' \<noteq> []"
  by (simp add: spec_intervals_def)

lemma spec_intervals_length:
  "length (spec_intervals st remaining start end') = Suc (length remaining)"
  by (simp add: spec_intervals_def)

lemma spec_intervals_hd: "iv_start (hd (spec_intervals st remaining start end')) = start"
  by (simp add: spec_intervals_def)

lemma spec_intervals_last: "iv_end (last (spec_intervals st remaining start end')) = end'"
proof (cases "remaining = []")
  case True
  then show ?thesis by (simp add: spec_intervals_def)
next
  case False
  then have "spec_action_intervals remaining end' \<noteq> []"
    by (cases remaining) (simp_all add: spec_action_intervals_Cons)
  with False show ?thesis by (simp add: spec_intervals_def spec_action_intervals_last)
qed

lemma spec_intervals_chain:
  "successively (\<lambda>x y. iv_end x = iv_start y) (spec_intervals st remaining start end')"
proof (cases remaining)
  case Nil
  then show ?thesis by (simp add: spec_intervals_def)
next
  case (Cons a rest)
  then show ?thesis
    using spec_action_intervals_chain[of remaining end']
    by (simp add: spec_intervals_def successively_Cons spec_action_intervals_Cons)
qed

lemma spec_intervals_ordered:
  assumes "start \<le> end'" "sorted (map time remaining)"
    and "\<forall>a \<in> set remaining. start \<le> time a \<and> time a \<le> end'"
  shows "\<forall>iv \<in> set (spec_intervals st remaining start end'). iv_start iv \<le> iv_end iv"
proof (cases "remaining = []")
  case True
  with assms(1) show ?thesis by (simp add: spec_intervals_def)
next
  case False
  then have "start \<le> time (hd remaining)" using assms(3) by simp
  moreover have "\<forall>iv \<in> set (spec_action_intervals remaining end'). iv_start iv \<le> iv_end iv"
    using spec_action_intervals_ordered[OF assms(2), of end'] assms(3) by simp
  ultimately show ?thesis using False by (simp add: spec_intervals_def)
qed

lemma spec_intervals_states:
  assumes "st \<in> PRODUCED_STATES"
    and "\<forall>a \<in> set remaining. ACTION_TO_STATE_LOOKUP (action a) \<noteq> None"
  shows "\<forall>iv \<in> set (spec_intervals st remaining start end'). iv_state iv \<in> PRODUCED_STATES"
  using assms spec_action_intervals_states[OF assms(2), of end']
  by (simp add: spec_intervals_def)

lemma produced_states_charged:
  "s \<in> PRODUCED_STATES \<Longrightarrow> STATE_CHARGE_MULTIPLIERS s \<noteq> None"
  by (auto simp: PRODUCED_STATES_def STATE_CHARGE_MULTIPLIERS_def simp del: not_None_eq)

lemma get_actions_relevant:
  assumes "get_actions_for_instance conn instance_id = Inr actions"
  shows "\<forall>a \<in> set actions. action a \<in> set RELEVANT_EVENTS"
proof -
  let ?s = "sort_key time (filter (\<lambda>a. action a \<in> set RELEVANT_EVENTS)
              (map (\<lambda>a. \<lparr>action = sa_action a, time = sa_start_time a\<rparr>) (server_actions conn instance_id)))"
  have s: "\<forall>a \<in> set ?s. action a \<in> set RELEVANT_EVENTS" by simp
  have c: "''create'' \<in> set RELEVANT_EVENTS" by (simp add: RELEVANT_EVENTS_def)
  from assms have "actions = ?s \<or> actions = \<lparr>action = ''create'', time = created_at (get_server conn instance_id)\<rparr> # ?s"
    by (auto simp: get_actions_for_instance_def Let_def split: list.splits if_splits)
  with s c show ?thesis by auto
qed

lemma get_actions_lookup:
  assumes "get_actions_for_instance conn instance_id = Inr actions"
  shows "\<forall>a \<in> set actions. ACTION_TO_STATE_LOOKUP (action a) \<noteq> None"
  using get_actions_relevant[OF assms] relevant_lookup by blast

lemma get_charge_intervals_Inr:
  assumes "get_charge_intervals_for_instance conn instance_id start end' = Inr ivs"
  shows "start \<le> end' \<and>
         (\<exists>actions. get_actions_for_instance conn instance_id = Inr actions \<and>
                    charge_intervals_of_actions actions start end' = Inr ivs)"
  using assms
  by (auto simp: get_charge_intervals_for_instance_def split: if_splits sum.splits)

lemma reconstruct_spec:
  assumes "get_charge_intervals_for_instance conn instance_id start end' = Inr ivs"
    and "get_actions_for_instance conn instance_id = Inr actions"
  shows "start \<le> end' \<and>
         (\<exists>st. starting_state_of (filter (\<lambda>a. time a < end') actions) start = Inr st \<and>
            ivs = spec_intervals st
                    (filter (\<lambda>a. start \<le> time a \<and> time a < end') actions) start end')"
proof -
  from get_charge_intervals_Inr[OF assms(1)] assms(2)
  have le: "start \<le> end'" and c: "charge_intervals_of_actions actions start end' = Inr ivs"
    by auto
  have f: "filter (\<lambda>a. start \<le> time a) (filter (\<lambda>a. time a < end') actions) =
           filter (\<lambda>a. start \<le> time a \<and> time a < end') actions"
    by (simp add: conj_commute)
  from charge_intervals_of_actions_Inr[OF c] le show ?thesis unfolding f by simp
qed

lemma starting_state_scan_no_ValueError:
  "starting_state_scan actions start st \<noteq> Inl (ValueError msg)"
  by (induction actions arbitrary: st) (auto split: option.splits)

lemma starting_state_of_no_ValueError:
  "starting_state_of actions start \<noteq> Inl (ValueError msg)"
  using starting_state_scan_no_ValueError
  by (cases actions) (auto simp: starting_state_of_def simp del: starting_state_scan.simps)

lemma append_intervals_no_ValueError:
  "append_intervals actions end' idxs acc \<noteq> Inl (ValueError msg)"
  by (induction idxs arbitrary: acc) (auto simp: interval_at_def split: sum.splits option.splits if_splits)

lemma charge_intervals_of_actions_no_ValueError:
  "charge_intervals_of_actions actions start end' \<noteq> Inl (ValueError msg)"
  using starting_state_of_no_ValueError append_intervals_no_ValueError
  by (auto simp: charge_intervals_of_actions_def Let_def split: sum.splits)

lemma get_actions_no_ValueError:
  "get_actions_for_instance conn instance_id \<noteq> Inl (ValueError msg)"
  by (auto simp: get_actions_for_instance_def Let_def split: list.splits)

lemma get_actions_unfold:
  "get_actions_for_instance conn instance_id =
     (case sort_key time (relevant_actions conn instance_id) of
        [] \<Rightarrow> Inl IndexError
      | a0 # rest \<Rightarrow>
          if action a0 \<noteq> ''create''
          then Inr (\<lparr>action = ''create'', time = created_at (get_server conn instance_id)\<rparr>
                      # sort_key time (relevant_actions conn instance_id))
          else Inr (sort_key time (relevant_actions conn instance_id)))"
  unfolding get_actions_for_instance_def relevant_actions_def Let_def by (rule refl)

lemma sort_key_nonempty: "xs \<noteq> [] \<Longrightarrow> sort_key f xs \<noteq> []"
  by (metis length_0_conv length_sort)

lemma sorted_Cons_hd:
  assumes "sorted (map f xs)" "xs \<noteq> []" "f c \<le> f (hd xs)"
  shows "sorted (map f (c # xs))"
  using assms by (cases xs) auto

section \<open>Claims about the interval reconstructor\<close>

text \<open>
  Claim C1 (coverage), as amended. Whenever \<open>get_charge_intervals_for_instance\<close> returns
  normally, the result is not empty, its first interval starts at \<open>start\<close>, its last
  interval ends at \<open>end\<close>, and each interval ends where the next one starts. If moreover
  the normalized action sequence is ascending by timestamp, every interval has
  \<open>start \<le> end\<close>. The normalized sequence is ascending unless a create event was
  synthesized with a creation time later than the earliest relevant action; without that
  condition an interval can end before it starts.
\<close>

theorem intervals_cover_window:
  assumes "get_charge_intervals_for_instance conn instance_id start end' = Inr ivs"
    and "get_actions_for_instance conn instance_id = Inr actions"
  shows "ivs \<noteq> [] \<and> iv_start (hd ivs) = start \<and> iv_end (last ivs) = end' \<and>
         (\<forall>i. Suc i < length ivs \<longrightarrow> iv_end (ivs ! i) = iv_start (ivs ! Suc i)) \<and>
         (sorted (map time actions) \<longrightarrow> (\<forall>iv \<in> set ivs. iv_start iv \<le> iv_end iv))"
proof -
  let ?win = "filter (\<lambda>a. start \<le> time a \<and> time a < end') actions"
  from reconstruct_spec[OF assms] obtain st
    where le: "start \<le> end'" and ivs: "ivs = spec_intervals st ?win start end'"
    by blast
  have "successively (\<lambda>x y. iv_end x = iv_start y) ivs"
    unfolding ivs by (rule spec_intervals_chain)
  then have chain: "\<forall>i. Suc i < length ivs \<longrightarrow> iv_end (ivs ! i) = iv_start (ivs ! Suc i)"
    by (simp add: successively_nth)
  have ord: "\<forall>iv \<in> set ivs. iv_start iv \<le> iv_end iv" if "sorted (map time actions)"
  proof -
    from that have "sorted (map time ?win)" by (rule sorted_filter)
    moreover have "\<forall>a \<in> set ?win. start \<le> time a \<and> time a \<le> end'" by simp
    ultimately show ?thesis unfolding ivs using le by (intro spec_intervals_ordered)
  qed
  show ?thesis
    using chain ord
    by (simp add: ivs spec_intervals_nonempty spec_intervals_hd spec_intervals_last)
qed

text \<open>
  The claim at work: a create at 0 and a stop at 5, seen through the window \<open>[2, 8)\<close>.
\<close>

theorem intervals_cover_window_witness:
  "get_charge_intervals_for_instance
     (conn_of [\<lparr>sa_action = ''create'', sa_start_time = 0\<rparr>,
               \<lparr>sa_action = ''stop'', sa_start_time = 5\<rparr>] 0 ''m3.small'' 1) ''i'' 2 8
     = Inr [\<lparr>iv_start = 2, iv_end = 5, iv_state = ''active''\<rparr>,
            \<lparr>iv_start = 5, iv_end = 8, iv_state = ''stopped''\<rparr>] \<and>
   get_actions_for_instance
     (conn_of [\<lparr>sa_action = ''create'', sa_start_time = 0\<rparr>,
               \<lparr>sa_action = ''stop'', sa_start_time = 5\<rparr>] 0 ''m3.small'' 1) ''i''
     = Inr [\<lparr>action = ''create'', time = 0\<rparr>, \<lparr>action = ''stop'', time = 5\<rparr>] \<and>
   sorted (map time [\<lparr>action = ''create'', time = 0\<rparr>, \<lparr>action = ''stop'', time = 5\<rparr>]) \<and>
   iv_start (hd [\<lparr>iv_start = 2, iv_end = 5, iv_state = ''active''\<rparr>,
                 \<lparr>iv_start = 5, iv_end = 8, iv_state = ''stopped''\<rparr>]) = 2 \<and>
   iv_end (last [\<lparr>iv_start = 2, iv_end = 5, iv_state = ''active''\<rparr>,
                 \<lparr>iv_start = 5, iv_end = 8, iv_state = ''stopped''\<rparr>]) = 8 \<and>
   list_all (\<lambda>iv. iv_start iv \<le> iv_end iv)
     [\<lparr>iv_start = 2, iv_end = 5, iv_state = ''active''\<rparr>,
      \<lparr>iv_start = 5, iv_end = 8, iv_state = ''stopped''\<rparr>]"
proof -
  let ?c = "conn_of [\<lparr>sa_action = ''create'', sa_start_time = 0\<rparr>,
                     \<lparr>sa_action = ''stop'', sa_start_time = 5\<rparr>] 0 ''m3.small'' 1"
  let ?ivs = "[\<lparr>iv_start = 2, iv_end = 5, iv_state = ''active''\<rparr>,
               \<lparr>iv_start = 5, iv_end = 8, iv_state = ''stopped''\<rparr>]"
  let ?acts = "[\<lparr>action = ''create'', time = 0\<rparr>, \<lparr>action = ''stop'', time = 5\<rparr>]"
  have r: "get_charge_intervals_for_instance ?c ''i'' 2 8 = Inr ?ivs" by code_simp
  have a: "get_actions_for_instance ?c ''i'' = Inr ?acts" by code_simp
  have s: "sorted (map time ?acts)" by simp
  from intervals_cover_window[OF r a] s
  have "iv_start (hd ?ivs) = 2 \<and> iv_end (last ?ivs) = 8 \<and>
        list_all (\<lambda>iv. iv_start iv \<le> iv_end iv) ?ivs"
    unfolding list_all_iff by blast
  with r a s show ?thesis by blast
qed

text \<open>
  The claim as first stated fails: a lone pause at 3 with a creation time of 10 is
  normalized to a create at 10 followed by the pause at 3, and the window \<open>[0, 20)\<close> then
  holds the interval from 10 to 3.
\<close>

theorem intervals_cover_window_counterexample:
  "get_charge_intervals_for_instance
     (conn_of [\<lparr>sa_action = ''pause'', sa_start_time = 3\<rparr>] 10 ''m3.small'' 1) ''i'' 0 20
     = Inr [\<lparr>iv_start = 0, iv_end = 10, iv_state = ''deleted''\<rparr>,
            \<lparr>iv_start = 10, iv_end = 3, iv_state = ''active''\<rparr>,
            \<lparr>iv_start = 3, iv_end = 20, iv_state = ''suspended''\<rparr>] \<and>
   (0::int) \<le> 20 \<and>
   \<not> iv_start \<lparr>iv_start = 10, iv_end = 3, iv_state = ''active''\<rparr>
       \<le> iv_end \<lparr>iv_start = 10, iv_end = 3, iv_state = ''active''\<rparr>"
proof -
  have "get_charge_intervals_for_instance
     (conn_of [\<lparr>sa_action = ''pause'', sa_start_time = 3\<rparr>] 10 ''m3.small'' 1) ''i'' 0 20
     = Inr [\<lparr>iv_start = 0, iv_end = 10, iv_state = ''deleted''\<rparr>,
            \<lparr>iv_start = 10, iv_end = 3, iv_state = ''active''\<rparr>,
            \<lparr>iv_start = 3, iv_end = 20, iv_state = ''suspended''\<rparr>]"
    by code_simp
  then show ?thesis by simp
qed

text \<open>
  Claim C2 (what the reconstructor emits), as amended. Let the normalized action sequence
  be ascending by timestamp, \<open>start \<le> end\<close>, and at least one action lie before \<open>end\<close>.
  Then the reconstructor returns exactly what the specification describes, built from the
  starting state and the actions with timestamp in \<open>[start, end)\<close>: the single interval
  \<open>[start, end)\<close> when no such action remains, and otherwise \<open>[start, t1)\<close> with the
  starting state followed by one interval per remaining action, the last one ending at
  \<open>end\<close>. The result has one interval more than there are remaining actions, so no
  interval of zero length is dropped or merged, and the remaining timestamps ascend.
  When no action lies before \<open>end\<close> the reconstructor raises instead.
\<close>

theorem intervals_follow_window_actions:
  assumes "get_actions_for_instance conn instance_id = Inr actions"
    and "sorted (map time actions)"
    and "start \<le> end'"
    and "\<exists>a \<in> set actions. time a < end'"
  shows "\<exists>starting_state.
           starting_state_of (filter (\<lambda>a. time a < end') actions) start = Inr starting_state \<and>
           get_charge_intervals_for_instance conn instance_id start end' =
             Inr (spec_intervals starting_state
                    (filter (\<lambda>a. start \<le> time a \<and> time a < end') actions) start end') \<and>
           length (spec_intervals starting_state
                    (filter (\<lambda>a. start \<le> time a \<and> time a < end') actions) start end') =
             Suc (length (filter (\<lambda>a. start \<le> time a \<and> time a < end') actions)) \<and>
           sorted (map time (filter (\<lambda>a. start \<le> time a \<and> time a < end') actions))"
proof -
  let ?kept = "filter (\<lambda>a. time a < end') actions"
  from assms(4) have ne: "?kept \<noteq> []" by (simp add: filter_empty_conv)
  from charge_intervals_of_actions_ok[OF ne get_actions_lookup[OF assms(1)], of start]
  obtain ivs where c: "charge_intervals_of_actions actions start end' = Inr ivs" by blast
  with assms(1,3) have r: "get_charge_intervals_for_instance conn instance_id start end' = Inr ivs"
    by (simp add: get_charge_intervals_for_instance_def)
  from reconstruct_spec[OF r assms(1)] obtain st
    where "starting_state_of ?kept start = Inr st"
      and "ivs = spec_intervals st (filter (\<lambda>a. start \<le> time a \<and> time a < end') actions) start end'"
    by blast
  with r sorted_filter[OF assms(2)] show ?thesis
    by (auto simp: spec_intervals_length)
qed

text \<open>
  The window \<open>[2, 8)\<close> spanning a single action: a create at 0 and a stop at 5 give
  \<open>[2, 5)\<close> active and \<open>[5, 8)\<close> stopped.
\<close>

theorem intervals_follow_window_actions_witness:
  "get_actions_for_instance
     (conn_of [\<lparr>sa_action = ''create'', sa_start_time = 0\<rparr>,
               \<lparr>sa_action = ''stop'', sa_start_time = 5\<rparr>] 0 ''m3.small'' 1) ''i''
     = Inr [\<lparr>action = ''create'', time = 0\<rparr>, \<lparr>action = ''stop'', time = 5\<rparr>] \<and>
   sorted (map time [\<lparr>action = ''create'', time = 0\<rparr>, \<lparr>action = ''stop'', time = 5\<rparr>]) \<and>
   (2::int) \<le> 8 \<and>
   time \<lparr>action = ''create'', time = 0\<rparr> < 8 \<and>
   get_charge_intervals_for_instance
     (conn_of [\<lparr>sa_action = ''create'', sa_start_time = 0\<rparr>,
               \<lparr>sa_action = ''stop'', sa_start_time = 5\<rparr>] 0 ''m3.small'' 1) ''i'' 2 8
     = Inr [\<lparr>iv_start = 2, iv_end = 5, iv_state = ''active''\<rparr>,
            \<lparr>iv_start = 5, iv_end = 8, iv_state = ''stopped''\<rparr>]"
proof -
  let ?c = "conn_of [\<lparr>sa_action = ''create'', sa_start_time = 0\<rparr>,
                     \<lparr>sa_action = ''stop'', sa_start_time = 5\<rparr>] 0 ''m3.small'' 1"
  let ?acts = "[\<lparr>action = ''create'', time = 0\<rparr>, \<lparr>action = ''stop'', time = 5\<rparr>]"
  have a: "get_actions_for_instance ?c ''i'' = Inr ?acts" by code_simp
  have s: "sorted (map time ?acts)" by simp
  have le: "(2::int) \<le> 8" by simp
  have ex: "\<exists>a \<in> set ?acts. time a < 8" by simp
  from intervals_follow_window_actions[OF a s le ex] obtain st
    where st: "starting_state_of (filter (\<lambda>a. time a < 8) ?acts) 2 = Inr st"
      and r: "get_charge_intervals_for_instance ?c ''i'' 2 8 =
             Inr (spec_intervals st (filter (\<lambda>a. 2 \<le> time a \<and> time a < 8) ?acts) 2 8)"
    by blast
  have "starting_state_of (filter (\<lambda>a. time a < 8) ?acts) 2 = Inr ''active''"
    by (simp add: starting_state_of_def ACTION_TO_STATE_LOOKUP_def)
  with st have "st = ''active''" by simp
  with r have "get_charge_intervals_for_instance ?c ''i'' 2 8 =
     Inr [\<lparr>iv_start = 2, iv_end = 5, iv_state = ''active''\<rparr>,
          \<lparr>iv_start = 5, iv_end = 8, iv_state = ''stopped''\<rparr>]"
    by (simp add: spec_intervals_def mapped_state_def ACTION_TO_STATE_LOOKUP_def)
  with a s show ?thesis by simp
qed

text \<open>
  The claim as first stated fails where every action lies at or after \<open>end\<close>: no action
  with timestamp in \<open>[0, 10)\<close> remains of a lone create at 20, and yet no interval
  \<open>[0, 10)\<close> is emitted.
\<close>

theorem intervals_follow_window_actions_counterexample:
  "get_actions_for_instance
     (conn_of [\<lparr>sa_action = ''create'', sa_start_time = 20\<rparr>] 20 ''m3.small'' 1) ''i''
     = Inr [\<lparr>action = ''create'', time = 20\<rparr>] \<and>
   sorted (map time [\<lparr>action = ''create'', time = 20\<rparr>]) \<and>
   (0::int) \<le> 10 \<and>
   \<not> time \<lparr>action = ''create'', time = 20\<rparr> < 10 \<and>
   get_charge_intervals_for_instance
     (conn_of [\<lparr>sa_action = ''create'', sa_start_time = 20\<rparr>] 20 ''m3.small'' 1) ''i'' 0 10
     = Inl (Exception ''Action history is empty!'')"
proof -
  have "get_actions_for_instance
     (conn_of [\<lparr>sa_action = ''create'', sa_start_time = 20\<rparr>] 20 ''m3.small'' 1) ''i''
     = Inr [\<lparr>action = ''create'', time = 20\<rparr>]" by code_simp
  moreover have "get_charge_intervals_for_instance
     (conn_of [\<lparr>sa_action = ''create'', sa_start_time = 20\<rparr>] 20 ''m3.small'' 1) ''i'' 0 10
     = Inl (Exception ''Action history is empty!'')" by code_simp
  ultimately show ?thesis by simp
qed

text \<open>
  Claim C3 (the starting state). Let the normalized action sequence be ascending by
  timestamp and let \<open>kept\<close>, the actions with timestamp before \<open>end\<close>, be non-empty. Its
  head is then the earliest kept action. If \<open>start\<close> is at or before that action's
  timestamp the starting state is \<open>deleted\<close>; otherwise it is the state that
  \<open>ACTION_TO_STATE_LOOKUP\<close> gives the last kept action with timestamp \<open>\<le> start\<close>, last in
  sequence order, so the last one wins among equal timestamps. For a valid window the
  reconstructor returns normally and its first interval carries that state.
\<close>

theorem starting_state_policy:
  assumes "get_actions_for_instance conn instance_id = Inr actions"
    and "sorted (map time actions)"
    and "kept = filter (\<lambda>a. time a < end') actions"
    and "kept \<noteq> []"
  shows "(\<forall>a \<in> set kept. time (hd kept) \<le> time a) \<and>
         (start \<le> time (hd kept) \<longrightarrow> starting_state_of kept start = Inr ''deleted'') \<and>
         (\<not> start \<le> time (hd kept) \<longrightarrow>
            (\<exists>s. ACTION_TO_STATE_LOOKUP (action (last (filter (\<lambda>a. time a \<le> start) kept))) = Some s \<and>
                 starting_state_of kept start = Inr s)) \<and>
         (start \<le> end' \<longrightarrow>
            (\<exists>s ivs. starting_state_of kept start = Inr s \<and>
                 get_charge_intervals_for_instance conn instance_id start end' = Inr ivs \<and>
                 ivs \<noteq> [] \<and> iv_state (hd ivs) = s))"
proof -
  have lk: "\<forall>a \<in> set actions. ACTION_TO_STATE_LOOKUP (action a) \<noteq> None"
    by (rule get_actions_lookup[OF assms(1)])
  then have lk': "\<forall>a \<in> set kept. ACTION_TO_STATE_LOOKUP (action a) \<noteq> None"
    by (simp add: assms(3))
  have sk: "sorted (map time kept)" unfolding assms(3) by (rule sorted_filter[OF assms(2)])
  have first: "\<forall>a \<in> set kept. time (hd kept) \<le> time a"
    using sk assms(4) by (cases kept) auto
  note ss = starting_state_of_sorted[OF assms(4) sk lk', of start]
  have del: "start \<le> time (hd kept) \<longrightarrow> starting_state_of kept start = Inr ''deleted''"
    using ss by simp
  have scan: "\<not> start \<le> time (hd kept) \<longrightarrow>
            (\<exists>s. ACTION_TO_STATE_LOOKUP (action (last (filter (\<lambda>a. time a \<le> start) kept))) = Some s \<and>
                 starting_state_of kept start = Inr s)"
  proof
    assume n: "\<not> start \<le> time (hd kept)"
    let ?l = "last (filter (\<lambda>a. time a \<le> start) kept)"
    from n assms(4) have "hd kept \<in> set (filter (\<lambda>a. time a \<le> start) kept)" by simp
    then have "filter (\<lambda>a. time a \<le> start) kept \<noteq> []"
      by (metis empty_iff list.set(1))
    then have "?l \<in> set (filter (\<lambda>a. time a \<le> start) kept)" by (rule last_in_set)
    then have "?l \<in> set kept" by simp
    with lk' obtain s where s: "ACTION_TO_STATE_LOOKUP (action ?l) = Some s" by auto
    with ss n show "\<exists>s. ACTION_TO_STATE_LOOKUP (action ?l) = Some s \<and>
                 starting_state_of kept start = Inr s"
      by (simp add: mapped_state_def)
  qed
  have out: "start \<le> end' \<longrightarrow>
            (\<exists>s ivs. starting_state_of kept start = Inr s \<and>
                 get_charge_intervals_for_instance conn instance_id start end' = Inr ivs \<and>
                 ivs \<noteq> [] \<and> iv_state (hd ivs) = s)"
  proof
    assume le: "start \<le> end'"
    from assms(3,4) have ne: "filter (\<lambda>a. time a < end') actions \<noteq> []" by simp
    from charge_intervals_of_actions_ok[OF ne lk, of start]
    obtain ivs where c: "charge_intervals_of_actions actions start end' = Inr ivs" by blast
    with assms(1) le have r: "get_charge_intervals_for_instance conn instance_id start end' = Inr ivs"
      by (simp add: get_charge_intervals_for_instance_def)
    from reconstruct_spec[OF r assms(1)] obtain st
      where st: "starting_state_of kept start = Inr st"
        and ivs: "ivs = spec_intervals st (filter (\<lambda>a. start \<le> time a \<and> time a < end') actions) start end'"
      unfolding assms(3) by blast
    have "iv_state (hd ivs) = st" unfolding ivs by (simp add: spec_intervals_def)
    moreover have "ivs \<noteq> []" unfolding ivs by (rule spec_intervals_nonempty)
    ultimately show "\<exists>s ivs. starting_state_of kept start = Inr s \<and>
                 get_charge_intervals_for_instance conn instance_id start end' = Inr ivs \<and>
                 ivs \<noteq> [] \<and> iv_state (hd ivs) = s"
      using st r by blast
  qed
  from first del scan out show ?thesis by blast
qed

text \<open>
  A stop and a start both at 5: seen from \<open>start = 5\<close> the later one wins and the
  starting state is active; seen from \<open>start = 0\<close> it is deleted.
\<close>

theorem starting_state_policy_witness:
  "get_actions_for_instance
     (conn_of [\<lparr>sa_action = ''create'', sa_start_time = 0\<rparr>,
               \<lparr>sa_action = ''stop'', sa_start_time = 5\<rparr>,
               \<lparr>sa_action = ''start'', sa_start_time = 5\<rparr>,
               \<lparr>sa_action = ''delete'', sa_start_time = 30\<rparr>] 0 ''m3.small'' 1) ''i''
     = Inr [\<lparr>action = ''create'', time = 0\<rparr>, \<lparr>action = ''stop'', time = 5\<rparr>,
            \<lparr>action = ''start'', time = 5\<rparr>, \<lparr>action = ''delete'', time = 30\<rparr>] \<and>
   sorted (map time [\<lparr>action = ''create'', time = 0\<rparr>, \<lparr>action = ''stop'', time = 5\<rparr>,
            \<lparr>action = ''start'', time = 5\<rparr>, \<lparr>action = ''delete'', time = 30\<rparr>]) \<and>
   filter (\<lambda>a. time a < 9)
       [\<lparr>action = ''create'', time = 0\<rparr>, \<lparr>action = ''stop'', time = 5\<rparr>,
        \<lparr>action = ''start'', time = 5\<rparr>, \<lparr>action = ''delete'', time = 30\<rparr>]
     = [\<lparr>action = ''create'', time = 0\<rparr>, \<lparr>action = ''stop'', time = 5\<rparr>,
        \<lparr>action = ''start'', time = 5\<rparr>] \<and>
   \<not> 5 \<le> time (hd [\<lparr>action = ''create'', time = 0\<rparr>, \<lparr>action = ''stop'', time = 5\<rparr>,
                     \<lparr>action = ''start'', time = 5\<rparr>]) \<and>
   last (filter (\<lambda>a. time a \<le> 5)
       [\<lparr>action = ''create'', time = 0\<rparr>, \<lparr>action = ''stop'', time = 5\<rparr>,
        \<lparr>action = ''start'', time = 5\<rparr>]) = \<lparr>action = ''start'', time = 5\<rparr> \<and>
   starting_state_of [\<lparr>action = ''create'', time = 0\<rparr>, \<lparr>action = ''stop'', time = 5\<rparr>,
        \<lparr>action = ''start'', time = 5\<rparr>] 5 = Inr ''active'' \<and>
   starting_state_of [\<lparr>action = ''create'', time = 0\<rparr>, \<lparr>action = ''stop'', time = 5\<rparr>,
        \<lparr>action = ''start'', time = 5\<rparr>] 0 = Inr ''deleted''"
proof -
  let ?c = "conn_of [\<lparr>sa_action = ''create'', sa_start_time = 0\<rparr>,
               \<lparr>sa_action = ''stop'', sa_start_time = 5\<rparr>,
               \<lparr>sa_action = ''start'', sa_start_time = 5\<rparr>,
               \<lparr>sa_action = ''delete'', sa_start_time = 30\<rparr>] 0 ''m3.small'' 1"
  let ?acts = "[\<lparr>action = ''create'', time = 0\<rparr>, \<lparr>action = ''stop'', time = 5\<rparr>,
            \<lparr>action = ''start'', time = 5\<rparr>, \<lparr>action = ''delete'', time = 30\<rparr>]"
  let ?kept = "[\<lparr>action = ''create'', time = 0\<rparr>, \<lparr>action = ''stop'', time = 5\<rparr>,
            \<lparr>action = ''start'', time = 5\<rparr>]"
  have a: "get_actions_for_instance ?c ''i'' = Inr ?acts" by code_simp
  have s: "sorted (map time ?acts)" by simp
  have k: "?kept = filter (\<lambda>a. time a < 9) ?acts" by simp
  have ne: "?kept \<noteq> []" by simp
  have l: "last (filter (\<lambda>a. time a \<le> 5) ?kept) = \<lparr>action = ''start'', time = 5\<rparr>" by simp
  have n: "\<not> 5 \<le> time (hd ?kept)" by simp
  from starting_state_policy[OF a s k ne, of 5] n obtain st
    where "ACTION_TO_STATE_LOOKUP (action (last (filter (\<lambda>a. time a \<le> 5) ?kept))) = Some st"
      and st: "starting_state_of ?kept 5 = Inr st"
    by blast
  then have "st = ''active''" unfolding l by (simp add: ACTION_TO_STATE_LOOKUP_def)
  with st have five: "starting_state_of ?kept 5 = Inr ''active''" by simp
  have z: "0 \<le> time (hd ?kept)" by simp
  from starting_state_policy[OF a s k ne, of 0] z
  have zero: "starting_state_of ?kept 0 = Inr ''deleted''" by blast
  from a s k[symmetric] n l five zero show ?thesis by blast
qed

text \<open>
  Claim C4 (window entirely before creation), as amended. For a lone create at 10 and the
  window \<open>[5, 8)\<close> the reconstructor returns no interval: the create has a timestamp
  \<open>\<ge> end\<close> and is dropped, nothing remains, and the reconstructor raises
  ``Action history is empty!''. The interval in state \<open>deleted\<close> before the creation is
  returned only when the window reaches past the create, as \<open>[5, 11)\<close> does.
\<close>

theorem window_before_creation_fails:
  "get_charge_intervals_for_instance
     (conn_of [\<lparr>sa_action = ''create'', sa_start_time = 10\<rparr>] 10 ''m3.small'' 1) ''i'' 5 8
     = Inl (Exception ''Action history is empty!'') \<and>
   get_charge_intervals_for_instance
     (conn_of [\<lparr>sa_action = ''create'', sa_start_time = 10\<rparr>] 10 ''m3.small'' 1) ''i'' 5 11
     = Inr [\<lparr>iv_start = 5, iv_end = 10, iv_state = ''deleted''\<rparr>,
            \<lparr>iv_start = 10, iv_end = 11, iv_state = ''active''\<rparr>]"
proof -
  have "get_charge_intervals_for_instance
     (conn_of [\<lparr>sa_action = ''create'', sa_start_time = 10\<rparr>] 10 ''m3.small'' 1) ''i'' 5 8
     = Inl (Exception ''Action history is empty!'')" by code_simp
  moreover have "get_charge_intervals_for_instance
     (conn_of [\<lparr>sa_action = ''create'', sa_start_time = 10\<rparr>] 10 ''m3.small'' 1) ''i'' 5 11
     = Inr [\<lparr>iv_start = 5, iv_end = 10, iv_state = ''deleted''\<rparr>,
            \<lparr>iv_start = 10, iv_end = 11, iv_state = ''active''\<rparr>]" by code_simp
  ultimately show ?thesis by simp
qed

text \<open>The claim as first stated fails: the result is not the single interval \<open>[5, 8)\<close>.\<close>

theorem window_before_creation_counterexample:
  "get_charge_intervals_for_instance
     (conn_of [\<lparr>sa_action = ''create'', sa_start_time = 10\<rparr>] 10 ''m3.small'' 1) ''i'' 5 8
     \<noteq> Inr [\<lparr>iv_start = 5, iv_end = 8, iv_state = ''deleted''\<rparr>]"
proof -
  have "get_charge_intervals_for_instance
     (conn_of [\<lparr>sa_action = ''create'', sa_start_time = 10\<rparr>] 10 ''m3.small'' 1) ''i'' 5 8
     = Inl (Exception ''Action history is empty!'')" by code_simp
  then show ?thesis by simp
qed

text \<open>
  Claim C10 (the states produced). Whenever the reconstructor returns normally, every
  interval carries one of the five states \<open>active\<close>, \<open>deleted\<close>, \<open>suspended\<close>,
  \<open>shelved_offloaded\<close>, \<open>stopped\<close>, none of \<open>paused\<close>, \<open>not_yet_created\<close>, \<open>error\<close>,
  \<open>resized\<close>, and \<open>STATE_CHARGE_MULTIPLIERS\<close> has an entry for it. The pause action maps
  to \<open>suspended\<close>.
\<close>

theorem produced_states_are_charged:
  assumes "get_charge_intervals_for_instance conn instance_id start end' = Inr ivs"
  shows "ACTION_TO_STATE_LOOKUP ''pause'' = Some ''suspended'' \<and>
         (\<forall>iv \<in> set ivs.
            iv_state iv \<in> {''active'', ''deleted'', ''suspended'', ''shelved_offloaded'', ''stopped''} \<and>
            iv_state iv \<notin> {''paused'', ''not_yet_created'', ''error'', ''resized''} \<and>
            (\<exists>m. STATE_CHARGE_MULTIPLIERS (iv_state iv) = Some m))"
proof -
  from get_charge_intervals_Inr[OF assms] obtain actions
    where a: "get_actions_for_instance conn instance_id = Inr actions" by blast
  let ?win = "filter (\<lambda>a. start \<le> time a \<and> time a < end') actions"
  from reconstruct_spec[OF assms a] obtain st
    where st: "starting_state_of (filter (\<lambda>a. time a < end') actions) start = Inr st"
      and ivs: "ivs = spec_intervals st ?win start end'"
    by blast
  have "\<forall>a \<in> set ?win. ACTION_TO_STATE_LOOKUP (action a) \<noteq> None"
    using get_actions_lookup[OF a] by simp
  from spec_intervals_states[OF starting_state_of_range[OF st] this, of start end']
  have p: "\<forall>iv \<in> set ivs. iv_state iv \<in> PRODUCED_STATES" unfolding ivs .
  have q: "s \<notin> {''paused'', ''not_yet_created'', ''error'', ''resized''}"
    if "s \<in> PRODUCED_STATES" for s
    using that by (auto simp: PRODUCED_STATES_def)
  have "ACTION_TO_STATE_LOOKUP ''pause'' = Some ''suspended''"
    by (simp add: ACTION_TO_STATE_LOOKUP_def)
  moreover have "\<forall>iv \<in> set ivs.
            iv_state iv \<in> {''active'', ''deleted'', ''suspended'', ''shelved_offloaded'', ''stopped''} \<and>
            iv_state iv \<notin> {''paused'', ''not_yet_created'', ''error'', ''resized''} \<and>
            (\<exists>m. STATE_CHARGE_MULTIPLIERS (iv_state iv) = Some m)"
  proof
    fix iv assume "iv \<in> set ivs"
    with p have m: "iv_state iv \<in> PRODUCED_STATES" by blast
    from m have "iv_state iv \<in> {''active'', ''deleted'', ''suspended'', ''shelved_offloaded'', ''stopped''}"
      by (simp only: PRODUCED_STATES_def)
    moreover from produced_states_charged[OF m] have "\<exists>m. STATE_CHARGE_MULTIPLIERS (iv_state iv) = Some m"
      by blast
    ultimately show "iv_state iv \<in> {''active'', ''deleted'', ''suspended'', ''shelved_offloaded'', ''stopped''} \<and>
            iv_state iv \<notin> {''paused'', ''not_yet_created'', ''error'', ''resized''} \<and>
            (\<exists>m. STATE_CHARGE_MULTIPLIERS (iv_state iv) = Some m)"
      using q[OF m] by blast
  qed
  ultimately show ?thesis by blast
qed

text \<open>A create at 0 and a pause at 3, seen through \<open>[1, 6)\<close>.\<close>

theorem produced_states_are_charged_witness:
  "get_charge_intervals_for_instance
     (conn_of [\<lparr>sa_action = ''create'', sa_start_time = 0\<rparr>,
               \<lparr>sa_action = ''pause'', sa_start_time = 3\<rparr>] 0 ''m3.small'' 1) ''i'' 1 6
     = Inr [\<lparr>iv_start = 1, iv_end = 3, iv_state = ''active''\<rparr>,
            \<lparr>iv_start = 3, iv_end = 6, iv_state = ''suspended''\<rparr>] \<and>
   list_all (\<lambda>iv. iv_state iv \<in>
                {''active'', ''deleted'', ''suspended'', ''shelved_offloaded'', ''stopped''})
     [\<lparr>iv_start = 1, iv_end = 3, iv_state = ''active''\<rparr>,
      \<lparr>iv_start = 3, iv_end = 6, iv_state = ''suspended''\<rparr>] \<and>
   list_all (\<lambda>iv. \<exists>m. STATE_CHARGE_MULTIPLIERS (iv_state iv) = Some m)
     [\<lparr>iv_start = 1, iv_end = 3, iv_state = ''active''\<rparr>,
      \<lparr>iv_start = 3, iv_end = 6, iv_state = ''suspended''\<rparr>]"
proof -
  let ?c = "conn_of [\<lparr>sa_action = ''create'', sa_start_time = 0\<rparr>,
               \<lparr>sa_action = ''pause'', sa_start_time = 3\<rparr>] 0 ''m3.small'' 1"
  let ?ivs = "[\<lparr>iv_start = 1, iv_end = 3, iv_state = ''active''\<rparr>,
            \<lparr>iv_start = 3, iv_end = 6, iv_state = ''suspended''\<rparr>]"
  have r: "get_charge_intervals_for_instance ?c ''i'' 1 6 = Inr ?ivs" by code_simp
  from produced_states_are_charged[OF r]
  have "\<forall>iv \<in> set ?ivs.
          iv_state iv \<in> {''active'', ''deleted'', ''suspended'', ''shelved_offloaded'', ''stopped''} \<and>
          (\<exists>m. STATE_CHARGE_MULTIPLIERS (iv_state iv) = Some m)"
    by blast
  then have "list_all (\<lambda>iv. iv_state iv \<in>
                {''active'', ''deleted'', ''suspended'', ''shelved_offloaded'', ''stopped''}) ?ivs"
    and "list_all (\<lambda>iv. \<exists>m. STATE_CHARGE_MULTIPLIERS (iv_state iv) = Some m) ?ivs"
    unfolding list_all_iff by blast+
  with r show ?thesis by blast
qed

section \<open>Claims about the reconstructor's errors\<close>

text \<open>
  Claim C7 (inverted range). The reconstructor raises a \<^verbatim>\<open>ValueError\<close> exactly when
  \<open>end < start\<close>, and its message is then the one of line 73. In that case the result is
  the same for every connection and instance: the action history plays no part, and no
  interval is returned.
\<close>

theorem inverted_range_iff:
  "(get_charge_intervals_for_instance conn instance_id start end' = Inl (ValueError msg))
     = (end' < start \<and> msg = ''End datetime cannot be before start datetime!'') \<and>
   (end' < start \<longrightarrow>
      get_charge_intervals_for_instance conn' instance_id' start end' =
      get_charge_intervals_for_instance conn instance_id start end')"
proof -
  have "get_charge_intervals_for_instance conn instance_id start end' \<noteq> Inl (ValueError msg)"
    if "\<not> end' < start"
    using that get_actions_no_ValueError[of conn instance_id msg]
      charge_intervals_of_actions_no_ValueError[of _ start end' msg]
    by (auto simp: get_charge_intervals_for_instance_def split: sum.splits)
  moreover have "get_charge_intervals_for_instance c i start end' =
      Inl (ValueError ''End datetime cannot be before start datetime!'')"
    if "end' < start" for c i
    using that by (simp add: get_charge_intervals_for_instance_def)
  ultimately show ?thesis by (cases "end' < start") auto
qed

text \<open>The window with \<open>start = 10\<close> and \<open>end = 5\<close>, over two different histories.\<close>

theorem inverted_range_iff_witness:
  "(5::int) < 10 \<and>
   get_charge_intervals_for_instance
     (conn_of [\<lparr>sa_action = ''create'', sa_start_time = 0\<rparr>] 0 ''m3.small'' 1) ''i'' 10 5
     = Inl (ValueError ''End datetime cannot be before start datetime!'') \<and>
   get_charge_intervals_for_instance (conn_of [] 0 ''m3.small'' 1) ''j'' 10 5
     = Inl (ValueError ''End datetime cannot be before start datetime!'')"
proof -
  let ?c = "conn_of [\<lparr>sa_action = ''create'', sa_start_time = 0\<rparr>] 0 ''m3.small'' 1"
  let ?m = "''End datetime cannot be before start datetime!''"
  have lt: "(5::int) < 10" by simp
  from inverted_range_iff[of ?c "''i''" 10 5 ?m "conn_of [] 0 ''m3.small'' 1" "''j''"] lt
  have "get_charge_intervals_for_instance ?c ''i'' 10 5 = Inl (ValueError ?m)"
    and "get_charge_intervals_for_instance (conn_of [] 0 ''m3.small'' 1) ''j'' 10 5 =
         get_charge_intervals_for_instance ?c ''i'' 10 5"
    by blast+
  with lt show ?thesis by simp
qed

text \<open>
  Claim C8 (empty history within the window). For a valid window and a normalized action
  sequence, the reconstructor raises an \<^verbatim>\<open>Exception\<close> exactly when no action has a
  timestamp before \<open>end\<close>; the message is then ``Action history is empty!''. Otherwise it
  returns normally.
\<close>

theorem empty_history_iff_nothing_before_end:
  assumes "start \<le> end'"
    and "get_actions_for_instance conn instance_id = Inr actions"
  shows "((\<exists>msg. get_charge_intervals_for_instance conn instance_id start end' = Inl (Exception msg))
            = (filter (\<lambda>a. time a < end') actions = [])) \<and>
         (filter (\<lambda>a. time a < end') actions = [] \<longrightarrow>
            get_charge_intervals_for_instance conn instance_id start end' =
              Inl (Exception ''Action history is empty!'')) \<and>
         (filter (\<lambda>a. time a < end') actions \<noteq> [] \<longrightarrow>
            (\<exists>ivs. get_charge_intervals_for_instance conn instance_id start end' = Inr ivs))"
proof -
  have full: "get_charge_intervals_for_instance conn instance_id start end' =
              charge_intervals_of_actions actions start end'"
    using assms by (simp add: get_charge_intervals_for_instance_def)
  have e: "charge_intervals_of_actions actions start end' = Inl (Exception ''Action history is empty!'')"
    if "filter (\<lambda>a. time a < end') actions = []"
    using that by (simp add: charge_intervals_of_actions_def)
  have n: "\<exists>ivs. charge_intervals_of_actions actions start end' = Inr ivs"
    if "filter (\<lambda>a. time a < end') actions \<noteq> []"
    using charge_intervals_of_actions_ok[OF that get_actions_lookup[OF assms(2)]] .
  show ?thesis
  proof (cases "filter (\<lambda>a. time a < end') actions = []")
    case True
    with e full show ?thesis by simp
  next
    case False
    with n full show ?thesis by auto
  qed
qed

text \<open>
  A create at 10 and a stop at 12: the window \<open>[1, 4)\<close> raises, the window \<open>[1, 11)\<close>
  does not.
\<close>

theorem empty_history_iff_nothing_before_end_witness:
  "(1::int) \<le> 4 \<and>
   get_actions_for_instance
     (conn_of [\<lparr>sa_action = ''create'', sa_start_time = 10\<rparr>,
               \<lparr>sa_action = ''stop'', sa_start_time = 12\<rparr>] 10 ''m3.small'' 1) ''i''
     = Inr [\<lparr>action = ''create'', time = 10\<rparr>, \<lparr>action = ''stop'', time = 12\<rparr>] \<and>
   filter (\<lambda>a. time a < 4)
     [\<lparr>action = ''create'', time = 10\<rparr>, \<lparr>action = ''stop'', time = 12\<rparr>] = [] \<and>
   get_charge_intervals_for_instance
     (conn_of [\<lparr>sa_action = ''create'', sa_start_time = 10\<rparr>,
               \<lparr>sa_action = ''stop'', sa_start_time = 12\<rparr>] 10 ''m3.small'' 1) ''i'' 1 4
     = Inl (Exception ''Action history is empty!'') \<and>
   filter (\<lambda>a. time a < 11)
     [\<lparr>action = ''create'', time = 10\<rparr>, \<lparr>action = ''stop'', time = 12\<rparr>]
     = [\<lparr>action = ''create'', time = 10\<rparr>] \<and>
   get_charge_intervals_for_instance
     (conn_of [\<lparr>sa_action = ''create'', sa_start_time = 10\<rparr>,
               \<lparr>sa_action = ''stop'', sa_start_time = 12\<rparr>] 10 ''m3.small'' 1) ''i'' 1 11
     \<noteq> Inl (Exception ''Action history is empty!'')"
proof -
  let ?c = "conn_of [\<lparr>sa_action = ''create'', sa_start_time = 10\<rparr>,
               \<lparr>sa_action = ''stop'', sa_start_time = 12\<rparr>] 10 ''m3.small'' 1"
  let ?acts = "[\<lparr>action = ''create'', time = 10\<rparr>, \<lparr>action = ''stop'', time = 12\<rparr>]"
  have a: "get_actions_for_instance ?c ''i'' = Inr ?acts" by code_simp
  have e: "filter (\<lambda>a. time a < 4) ?acts = []" by simp
  have n: "filter (\<lambda>a. time a < 11) ?acts = [\<lparr>action = ''create'', time = 10\<rparr>]" by simp
  have le: "(1::int) \<le> 4" and le': "(1::int) \<le> 11" by simp_all
  from empty_history_iff_nothing_before_end[OF le a] e
  have r1: "get_charge_intervals_for_instance ?c ''i'' 1 4 =
            Inl (Exception ''Action history is empty!'')"
    by blast
  from n have "filter (\<lambda>a. time a < 11) ?acts \<noteq> []" by simp
  with empty_history_iff_nothing_before_end[OF le' a]
  obtain ivs where "get_charge_intervals_for_instance ?c ''i'' 1 11 = Inr ivs" by blast
  then have r2: "get_charge_intervals_for_instance ?c ''i'' 1 11 \<noteq>
            Inl (Exception ''Action history is empty!'')"
    by simp
  from le a e r1 n r2 show ?thesis by blast
qed

section \<open>Claims about the normalizer\<close>

text \<open>
  Claim C5 (the normalizer), as amended. When at least one action of a relevant kind
  exists, the normalizer returns the relevant actions sorted ascending by timestamp
  (same actions, actions of equal timestamp in their original order), with a create at the
  server's creation time put in front exactly when the first sorted action is not a create.
  The returned sequence is ascending by timestamp if no create was put in front, or if
  the creation time is not later than the first sorted action's timestamp.
\<close>

theorem normalizer_sorts_and_synthesizes:
  assumes "relevant_actions conn instance_id \<noteq> []"
  shows "\<exists>sorted_actions.
           mset sorted_actions = mset (relevant_actions conn instance_id) \<and>
           sorted (map time sorted_actions) \<and>
           (\<forall>t. filter (\<lambda>a. time a = t) sorted_actions =
                filter (\<lambda>a. time a = t) (relevant_actions conn instance_id)) \<and>
           get_actions_for_instance conn instance_id =
             Inr (if action (hd sorted_actions) \<noteq> ''create''
                  then \<lparr>action = ''create'', time = created_at (get_server conn instance_id)\<rparr>
                         # sorted_actions
                  else sorted_actions) \<and>
           (action (hd sorted_actions) = ''create'' \<or>
            created_at (get_server conn instance_id) \<le> time (hd sorted_actions) \<longrightarrow>
              sorted (map time
                (if action (hd sorted_actions) \<noteq> ''create''
                 then \<lparr>action = ''create'', time = created_at (get_server conn instance_id)\<rparr>
                        # sorted_actions
                 else sorted_actions)))"
proof -
  let ?s = "sort_key time (relevant_actions conn instance_id)"
  let ?c = "\<lparr>action = ''create'', time = created_at (get_server conn instance_id)\<rparr>"
  have ne: "?s \<noteq> []" using assms by (rule sort_key_nonempty)
  have m: "mset ?s = mset (relevant_actions conn instance_id)" by simp
  have s: "sorted (map time ?s)" by (rule sorted_sort_key)
  have st: "\<forall>t. filter (\<lambda>a. time a = t) ?s =
                filter (\<lambda>a. time a = t) (relevant_actions conn instance_id)"
    by (simp add: sort_key_stable)
  have r: "get_actions_for_instance conn instance_id =
             Inr (if action (hd ?s) \<noteq> ''create'' then ?c # ?s else ?s)"
    using ne by (cases ?s) (simp_all add: get_actions_unfold)
  have o: "sorted (map time (if action (hd ?s) \<noteq> ''create'' then ?c # ?s else ?s))"
    if "action (hd ?s) = ''create'' \<or> created_at (get_server conn instance_id) \<le> time (hd ?s)"
  proof (cases "action (hd ?s) = ''create''")
    case True
    with s show ?thesis by simp
  next
    case False
    with that have "time ?c \<le> time (hd ?s)" by simp
    from sorted_Cons_hd[OF s ne this] False show ?thesis by simp
  qed
  from m s st r o show ?thesis by blast
qed

text \<open>A lone pause at 3 with creation time 0 normalizes to a create at 0 and the pause.\<close>

theorem normalizer_sorts_and_synthesizes_witness:
  "relevant_actions (conn_of [\<lparr>sa_action = ''pause'', sa_start_time = 3\<rparr>] 0 ''m3.small'' 1) ''i''
     = [\<lparr>action = ''pause'', time = 3\<rparr>] \<and>
   get_actions_for_instance
     (conn_of [\<lparr>sa_action = ''pause'', sa_start_time = 3\<rparr>] 0 ''m3.small'' 1) ''i''
     = Inr [\<lparr>action = ''create'', time = 0\<rparr>, \<lparr>action = ''pause'', time = 3\<rparr>] \<and>
   sorted (map time [\<lparr>action = ''create'', time = 0\<rparr>, \<lparr>action = ''pause'', time = 3\<rparr>])"
proof -
  let ?c = "conn_of [\<lparr>sa_action = ''pause'', sa_start_time = 3\<rparr>] 0 ''m3.small'' 1"
  have rel: "relevant_actions ?c ''i'' = [\<lparr>action = ''pause'', time = 3\<rparr>]"
    by (simp add: relevant_actions_def conn_of_def RELEVANT_EVENTS_def)
  then have ne: "relevant_actions ?c ''i'' \<noteq> []" by simp
  from normalizer_sorts_and_synthesizes[OF ne] obtain sa
    where m: "mset sa = mset (relevant_actions ?c ''i'')"
      and r: "get_actions_for_instance ?c ''i'' =
             Inr (if action (hd sa) \<noteq> ''create''
                  then \<lparr>action = ''create'', time = created_at (get_server ?c ''i'')\<rparr> # sa
                  else sa)"
    by blast
  from m have sa: "sa = [\<lparr>action = ''pause'', time = 3\<rparr>]" unfolding rel by simp
  from r have "get_actions_for_instance ?c ''i''
     = Inr [\<lparr>action = ''create'', time = 0\<rparr>, \<lparr>action = ''pause'', time = 3\<rparr>]"
    unfolding sa by (simp add: conn_of_def)
  with rel show ?thesis by simp
qed

text \<open>
  The claim as first stated fails: with creation time 10 the same pause at 3 comes second,
  and the returned sequence is not ascending.
\<close>

theorem normalizer_sorts_and_synthesizes_counterexample:
  "get_actions_for_instance
     (conn_of [\<lparr>sa_action = ''pause'', sa_start_time = 3\<rparr>] 10 ''m3.small'' 1) ''i''
     = Inr [\<lparr>action = ''create'', time = 10\<rparr>, \<lparr>action = ''pause'', time = 3\<rparr>] \<and>
   \<not> sorted (map time [\<lparr>action = ''create'', time = 10\<rparr>, \<lparr>action = ''pause'', time = 3\<rparr>])"
proof -
  have "get_actions_for_instance
     (conn_of [\<lparr>sa_action = ''pause'', sa_start_time = 3\<rparr>] 10 ''m3.small'' 1) ''i''
     = Inr [\<lparr>action = ''create'', time = 10\<rparr>, \<lparr>action = ''pause'', time = 3\<rparr>]"
    by code_simp
  then show ?thesis by simp
qed

text \<open>
  Claim C9 (empty input of the normalizer). The code does not do what the claim says:
  with no action of a relevant kind, \<^verbatim>\<open>actions[0]\<close> on line 64 raises \<^verbatim>\<open>IndexError\<close>, which
  is not the ``Action history is empty!'' exception that the check on lines 80 and 81
  raises.
\<close>

theorem normalizer_empty_raises_IndexError:
  "get_actions_for_instance (conn_of [] 0 ''m3.small'' 1) ''i'' = Inl IndexError \<and>
   get_actions_for_instance
     (conn_of [\<lparr>sa_action = ''attach_volume'', sa_start_time = 5\<rparr>] 0 ''m3.small'' 1) ''i''
     = Inl IndexError \<and>
   IndexError \<noteq> Exception ''Action history is empty!''"
proof -
  have "get_actions_for_instance (conn_of [] 0 ''m3.small'' 1) ''i'' = Inl IndexError"
    by code_simp
  moreover have "get_actions_for_instance
     (conn_of [\<lparr>sa_action = ''attach_volume'', sa_start_time = 5\<rparr>] 0 ''m3.small'' 1) ''i''
     = Inl IndexError"
    by code_simp
  ultimately show ?thesis by simp
qed

end
